theory Spec2Isabelle
  imports Main
begin

section \<open>Syntax trees\<close>

text \<open>
  The compiler driver (\<^verbatim>\<open>src/main.js\<close>) handles ESTree syntax trees as plain
  JavaScript data: a node is an array or an object with named properties, a leaf is a
  primitive value.  Numbers are kept to the integers.
\<close>

datatype node =
    Arr "ast list"
  | Obj "(string \<times> ast) list"
and ast =
    Undefined
  | Null
  | Bool bool
  | Num int
  | Str string
  | Node node

text \<open>\<^verbatim>\<open>_.isObject(val)\<close>: arrays and objects, but neither \<^verbatim>\<open>null\<close> nor a primitive.\<close>

fun isObject :: "ast \<Rightarrow> bool" where
  "isObject (Node n) = True"
| "isObject v = False"

text \<open>
  \<^verbatim>\<open>
  function copyAst(ast) {
    var ret = _.isArray(ast) ? [] : {};
    _.each(ast, function(val, key) {
      ret[key] = _.isObject(val) ? copyAst(val) : val;
    });
    return ret;
  }
  \<close>
  \<open>copyVal\<close> is the callback's right-hand side.  Objects are taken without a numeric
  \<^verbatim>\<open>length\<close> property (underscore would walk such an object as an array).
\<close>

fun copyAst :: "node \<Rightarrow> node"
  and copyVal :: "ast \<Rightarrow> ast" where
  "copyAst (Arr vals) = Arr (map copyVal vals)"
| "copyAst (Obj props) = Obj (map (\<lambda>(key, val). (key, copyVal val)) props)"
| "copyVal (Node n) = Node (copyAst n)"
| "copyVal v = v"

text \<open>
  A Program node: \<^verbatim>\<open>{type: 'Program', body: [...]}\<close>.  The functions below read and
  build only its \<^verbatim>\<open>body\<close>.
\<close>

datatype program = Program (body: "ast list")

text \<open>The node behind a program, and \<^verbatim>\<open>copyAst\<close> at such a node.\<close>

definition program_node :: "program \<Rightarrow> node" where
  "program_node p = Obj [(''type'', Str ''Program''), (''body'', Node (Arr (body p)))]"

definition copyProgram :: "program \<Rightarrow> program" where
  "copyProgram p = Program (map copyVal (body p))"

text \<open>
  \<^verbatim>\<open>
  function concatPrograms(programs) {
    assert.ok(_.isArray(programs));
    var concat = function(p0, p1) {
      return build.program(p0.body.concat(p1.body));
    };
    var emptyProgram = esprima.parse('');
    return programs.reduce(concat, emptyProgram);
  }
  \<close>
  \<^verbatim>\<open>build.program\<close> makes a Program node of a body; \<^verbatim>\<open>esprima.parse('')\<close> is the
  program with no statement; \<^verbatim>\<open>reduce\<close> folds from the left.
\<close>

definition build_program :: "ast list \<Rightarrow> program" where
  "build_program stmts = Program stmts"

definition emptyProgram :: program where
  "emptyProgram = Program []"

definition concat_programs :: "program \<Rightarrow> program \<Rightarrow> program" where
  "concat_programs p0 p1 = build_program (body p0 @ body p1)"

definition concatPrograms :: "program list \<Rightarrow> program" where
  "concatPrograms programs = foldl concat_programs emptyProgram programs"

section \<open>The compiler driver\<close>

text \<open>
  What the driver calls but \<^verbatim>\<open>src/\<close> does not hold is a parameter: the parser, the
  passes of \<^verbatim>\<open>src/transforms\<close>, the two predicates of the caching module, the code
  generator, and the parsed header.  Each may throw; a thrown exception is the left
  summand of the result.
\<close>

datatype 'x exn = TypeError | Raised 'x

definition and_then :: "'x exn + 'a \<Rightarrow> ('a \<Rightarrow> 'x exn + 'b) \<Rightarrow> 'x exn + 'b" where
  "and_then r f = (case r of Inl e \<Rightarrow> Inl e | Inr a \<Rightarrow> f a)"

fun map_result :: "('a \<Rightarrow> 'x exn + 'b) \<Rightarrow> 'a list \<Rightarrow> 'x exn + 'b list" where
  "map_result f [] = Inr []"
| "map_result f (a # as) =
     and_then (f a) (\<lambda>b. and_then (map_result f as) (\<lambda>bs. Inr (b # bs)))"

text \<open>
  Modelled from the spec: \<^verbatim>\<open>util.pipeline\<close> (\<^verbatim>\<open>src/util.js\<close> is not among the
  sources).  "Data flows strictly forward": the functions of the list run left to right,
  each on the result of the one before, as \<^verbatim>\<open>parsePackageCode\<close> and \<^verbatim>\<open>_compile\<close>
  need for their stages to fit.
\<close>

fun pipeline :: "('a \<Rightarrow> 'x exn + 'a) list \<Rightarrow> 'a \<Rightarrow> 'x exn + 'a" where
  "pipeline [] a = Inr a"
| "pipeline (f # fs) a = and_then (f a) (pipeline fs)"

text \<open>
  Modelled from the spec: \<^verbatim>\<open>util.timeif(verbose, name, func)\<close> (not among the sources)
  runs \<^verbatim>\<open>func\<close> and returns what it returns; the elapsed time it prints when
  \<^verbatim>\<open>verbose\<close> holds is console output and is left out.
\<close>

definition timeif :: "bool \<Rightarrow> string \<Rightarrow> 'a \<Rightarrow> 'a" where
  "timeif verbose name func = func"

type_synonym 'x pass = "program \<Rightarrow> 'x exn + program"

record 'm extra =
  asts :: "program list"
  macros :: "'m list"

record ('x, 'm, 's) collaborators =
  parse :: "string \<Rightarrow> 'm list \<Rightarrow> 'x exn + program"
  addFilename :: "program \<Rightarrow> string \<Rightarrow> 'x exn + program"
  thunkify :: "'x pass"
  naming :: "'x pass"
  cps :: "'x pass"
  store :: "'x pass"
  optimize :: "'x pass"
  varargs :: "'x pass"
  trampoline :: "'x pass"
  freevars :: "'x pass"
  caching_transform :: "'x pass"
  caching_transformRequired :: "program \<Rightarrow> bool"
  caching_hasNoCachingDirective :: "program \<Rightarrow> bool"
  escodegen_generate :: "program \<Rightarrow> string \<Rightarrow> string \<Rightarrow> 'x exn + string \<times> 's"
  parsePackageCode :: "bool \<Rightarrow> 'x exn + 'm extra"

text \<open>
  The options object; an absent property is \<open>None\<close>.  \<^verbatim>\<open>util.mergeDefaults\<close> fills
  \<^verbatim>\<open>verbose\<close> with false and \<^verbatim>\<open>generateCode\<close> with true.
\<close>

record ('x, 'm) options =
  verbose :: "bool option"
  generateCode :: "bool option"
  extra :: "'m extra option"
  transforms :: "'x pass list option"

definition or_default :: "'a option \<Rightarrow> 'a \<Rightarrow> 'a" where
  "or_default v d = (case v of None \<Rightarrow> d | Some a \<Rightarrow> a)"

text \<open>
  \<^verbatim>\<open>
  function applyCaching(asts) {
    return asts.map(function(ast) {
      return caching.hasNoCachingDirective(ast) ? ast : caching.transform(ast);
    });
  }
  \<close>
\<close>

definition applyCaching :: "('x, 'm, 's) collaborators \<Rightarrow> program list \<Rightarrow> 'x exn + program list" where
  "applyCaching C =
     map_result (\<lambda>ast. if caching_hasNoCachingDirective C ast then Inr ast
                        else caching_transform C ast)"

text \<open>What \<^verbatim>\<open>compile\<close> returns: code with its source map, or the tree itself.\<close>

datatype 's compiled = CodeAndMap string 's | Tree program

text \<open>
  \<^verbatim>\<open>
  var transforms = options.transforms || [
    thunkify, naming, cps, store, optimize, varargs, trampoline
  ];
  \<close>
\<close>

definition default_transforms :: "('x, 'm, 's) collaborators \<Rightarrow> 'x pass list" where
  "default_transforms C =
     [thunkify C, naming C, cps C, store C, optimize C, varargs C, trampoline C]"

text \<open>
  The first stage of the pipeline in \<^verbatim>\<open>_compile\<close>,
  \<^verbatim>\<open>doCaching ? applyCaching : _.identity\<close> with
  \<^verbatim>\<open>doCaching = _.any(asts, caching.transformRequired)\<close>, at the list of units.
\<close>

definition doCaching :: "('x, 'm, 's) collaborators \<Rightarrow> program list \<Rightarrow> bool" where
  "doCaching C units = list_ex (caching_transformRequired C) units"

definition caching_stage :: "('x, 'm, 's) collaborators \<Rightarrow> program list \<Rightarrow> 'x exn + program list" where
  "caching_stage C units = (if doCaching C units then applyCaching C units else Inr units)"

text \<open>
  \<^verbatim>\<open>
  var transformedAst = util.pipeline([
    doCaching ? applyCaching : _.identity,
    concatPrograms,
    doCaching ? freevars : _.identity,
    util.pipeline(transforms)
  ])(asts);
  \<close>
\<close>

definition transform_asts ::
  "('x, 'm, 's) collaborators \<Rightarrow> 'x pass list \<Rightarrow> program list \<Rightarrow> 'x exn + program" where
  "transform_asts C ts units =
     and_then (caching_stage C units) (\<lambda>units'.
     and_then (Inr (concatPrograms units')) (\<lambda>joined.
     and_then (if doCaching C units then freevars C joined else Inr joined)
       (pipeline ts)))"

text \<open>
  \<^verbatim>\<open>
  function compile(filename, code, options) {
    var options = util.mergeDefaults(options, { verbose: false, generateCode: true });
    var extra = options.extra || parsePackageCode([], options.verbose);
    var transforms = options.transforms || [ ... ];
    function _compile() {
      var programAst = parse(code, extra.macros);
      programAst = addFilename(programAst, filename);
      var asts = extra.asts.map(copyAst).concat(programAst);
      var doCaching = _.any(asts, caching.transformRequired);
      ...
      var transformedAst = util.pipeline([ ... ])(asts);
      var codeAndMap = options.generateCode ?
        escodegen.generate(transformedAst, { sourceMap: filename,
          sourceMapWithCode: true, sourceContent: code }) : transformedAst
      return codeAndMap
    };
    return util.timeif(options.verbose, 'compile', _compile);
  }
  \<close>
  The line the verbose mode prints is console output and is left out.
\<close>

definition compile_inner ::
  "('x, 'm, 's) collaborators \<Rightarrow> string \<Rightarrow> string \<Rightarrow> bool \<Rightarrow> 'm extra \<Rightarrow> 'x pass list
     \<Rightarrow> 'x exn + 's compiled" where
  "compile_inner C filename code generate ex ts =
     and_then (parse C code (macros ex)) (\<lambda>programAst.
     and_then (addFilename C programAst filename) (\<lambda>programAst.
     and_then (transform_asts C ts (map copyProgram (asts ex) @ [programAst])) (\<lambda>transformedAst.
       if generate
       then and_then (escodegen_generate C transformedAst filename code)
              (\<lambda>(c, m). Inr (CodeAndMap c m))
       else Inr (Tree transformedAst))))"

definition compile ::
  "('x, 'm, 's) collaborators \<Rightarrow> string \<Rightarrow> string \<Rightarrow> ('x, 'm) options \<Rightarrow> 'x exn + 's compiled" where
  "compile C filename code opts =
     (let is_verbose = or_default (verbose opts) False;
          generate = or_default (generateCode opts) True
      in and_then (case extra opts of Some ex \<Rightarrow> Inr ex | None \<Rightarrow> parsePackageCode C is_verbose)
           (\<lambda>ex. timeif is_verbose ''compile''
              (compile_inner C filename code generate ex
                 (or_default (transforms opts) (default_transforms C)))))"

section \<open>Running compiled code\<close>

text \<open>
  Values at run time; \<open>'f\<close> is the type of function values (closures), which the
  JavaScript engine knows how to call.  Numbers are kept to the integers.
\<close>

datatype 'f val =
    VUndefined
  | VNull
  | VBool bool
  | VNum int
  | VStr string
  | VObj "(string \<times> 'f val) list"
  | VFun 'f

text \<open>The truth value JavaScript gives a value in a condition.\<close>

fun truthy :: "'f val \<Rightarrow> bool" where
  "truthy VUndefined = False"
| "truthy VNull = False"
| "truthy (VBool b) = b"
| "truthy (VNum n) = (n \<noteq> 0)"
| "truthy (VStr s) = (s \<noteq> [])"
| "truthy (VObj props) = True"
| "truthy (VFun f) = True"

text \<open>
  The engine and the reporter are parameters.  A computation takes the world \<open>'w\<close>
  (everything compiled code can change) and returns the new world with either the
  exception it threw or its value.
\<close>

type_synonym ('f, 'x, 'w) computation = "'w \<Rightarrow> ('x exn + 'f val) \<times> 'w"

record ('f, 'x, 's, 'w) engine =
  eval_global :: "string \<Rightarrow> ('f, 'x, 'w) computation"
  call_function :: "'f \<Rightarrow> 'f val list \<Rightarrow> ('f, 'x, 'w) computation"
  printFriendlyStackTrace :: "'x exn \<Rightarrow> 's option \<Rightarrow> ('f, 'x, 'w) computation"

text \<open>A call expression \<^verbatim>\<open>f(args)\<close>: calling what is not a function throws a TypeError.\<close>

definition apply_val ::
  "('f \<Rightarrow> 'f val list \<Rightarrow> ('f, 'x, 'w) computation) \<Rightarrow> 'f val \<Rightarrow> 'f val list
     \<Rightarrow> ('f, 'x, 'w) computation" where
  "apply_val call f args w = (case f of VFun g \<Rightarrow> call g args w | _ \<Rightarrow> (Inl TypeError, w))"

text \<open>\<^verbatim>\<open>eval.call(global, x)\<close>: a string is evaluated, any other value is returned as it is.\<close>

definition eval_call :: "('f, 'x, 's, 'w) engine \<Rightarrow> 'f val \<Rightarrow> ('f, 'x, 'w) computation" where
  "eval_call E x w = (case x of VStr c \<Rightarrow> eval_global E c w | _ \<Rightarrow> (Inr x, w))"

text \<open>
  \<^verbatim>\<open>codeAndMap.code\<close> and \<^verbatim>\<open>codeAndMap.map\<close>: a tree (\<^verbatim>\<open>generateCode: false\<close>) has
  neither property.
\<close>

fun code_of :: "'s compiled \<Rightarrow> 'f val" where
  "code_of (CodeAndMap c m) = VStr c"
| "code_of (Tree p) = VUndefined"

fun source_map_of :: "'s compiled \<Rightarrow> 's option" where
  "source_map_of (CodeAndMap c m) = Some m"
| "source_map_of (Tree p) = None"

text \<open>
  \<^verbatim>\<open>
  function run(filename, code, k, options) {
    var options = options || {};
    var codeAndMap = compile(filename, code, options);
    util.timeif(options.verbose, 'run', function() {
      try {
        eval.call(global, codeAndMap.code)({}, k, '');
      } catch (exception) {
        printFriendlyStackTrace(exception, codeAndMap.map)
      }
    });
  }
  \<close>
  \<open>invoke_compiled\<close> is the statement inside \<^verbatim>\<open>try\<close>.
\<close>

definition invoke_compiled ::
  "('f, 'x, 's, 'w) engine \<Rightarrow> 's compiled \<Rightarrow> 'f val \<Rightarrow> ('f, 'x, 'w) computation" where
  "invoke_compiled E codeAndMap k w =
     (case eval_call E (code_of codeAndMap) w of
        (Inl e, w1) \<Rightarrow> (Inl e, w1)
      | (Inr f, w1) \<Rightarrow> apply_val (call_function E) f [VObj [], k, VStr []] w1)"

definition run ::
  "('x, 'm, 's) collaborators \<Rightarrow> ('f, 'x, 's, 'w) engine \<Rightarrow> string \<Rightarrow> string \<Rightarrow> 'f val
     \<Rightarrow> ('x, 'm) options \<Rightarrow> ('f, 'x, 'w) computation" where
  "run C E filename code k opts w =
     (case compile C filename code opts of
        Inl e \<Rightarrow> (Inl e, w)
      | Inr codeAndMap \<Rightarrow>
          timeif (or_default (verbose opts) False) ''run''
            (case invoke_compiled E codeAndMap k w of
               (Inl exception, w1) \<Rightarrow>
                 (case printFriendlyStackTrace E exception (source_map_of codeAndMap) w1 of
                    (Inl e, w2) \<Rightarrow> (Inl e, w2)
                  | (Inr u, w2) \<Rightarrow> (Inr VUndefined, w2))
             | (Inr v, w1) \<Rightarrow> (Inr VUndefined, w1)))"



text \<open>
  \<^verbatim>\<open>
  function runTrampoline(t) {
    while (t) {
      t = t();
    }
  }
  \<close>
  The loop may run forever: \<open>None\<close> is the run that does not return.
\<close>

partial_function (option) runTrampoline ::
  "('f \<Rightarrow> 'f val list \<Rightarrow> ('f, 'x, 'w) computation) \<Rightarrow> 'f val \<Rightarrow> 'w
     \<Rightarrow> (('x exn + 'f val) \<times> 'w) option" where
  "runTrampoline call t w =
     (if truthy t
      then (case apply_val call t [] w of
              (Inl e, w1) \<Rightarrow> Some (Inl e, w1)
            | (Inr t1, w1) \<Rightarrow> runTrampoline call t1 w1)
      else Some (Inr VUndefined, w))"

section \<open>The optimizer of guide parameters\<close>

text \<open>
  \<^verbatim>\<open>Optimize\<close> (\<^verbatim>\<open>src/inference/optimize.js\<close>) works on objects that are shared
  by reference, so the heap is explicit: a list of objects, an address is an index, and
  a new object goes to the end of the list.  A parameter object maps names to arrays of
  tensors; the data of a tensor is of type \<open>'d\<close>.
\<close>

type_synonym addr = nat

datatype 'd obj =
    HObject "(string \<times> addr) list"
  | HArray "addr list"
  | HTensor 'd

type_synonym 'd heap = "'d obj list"

fun refs :: "'d obj \<Rightarrow> addr list" where
  "refs (HObject props) = map snd props"
| "refs (HArray elems) = elems"
| "refs (HTensor d) = []"

text \<open>
  Reading an address and allocating an object.
\<close>

definition lookup :: "'d heap \<Rightarrow> addr \<Rightarrow> 'd obj option" where
  "lookup h a = (if a < length h then Some (h ! a) else None)"

definition alloc :: "'d obj \<Rightarrow> 'd heap \<Rightarrow> addr \<times> 'd heap" where
  "alloc ob h = (length h, h @ [ob])"

text \<open>
  The allocated objects that can be reached from an address.
\<close>

inductive_set reach :: "'d heap \<Rightarrow> addr \<Rightarrow> addr set" for h :: "'d heap" and a :: addr where
  here: "a < length h \<Longrightarrow> a \<in> reach h a"
| step: "b \<in> reach h a \<Longrightarrow> c \<in> set (refs (h ! b)) \<Longrightarrow> c < length h \<Longrightarrow> c \<in> reach h a"

text \<open>
  Modelled from the spec: \<^verbatim>\<open>paramStruct.deepCopy\<close> (\<^verbatim>\<open>src/paramStruct.js\<close> is not among
  the sources).  The header of \<^verbatim>\<open>optimize.js\<close> says "The parameters passed in are not
  modified", and the function is called a deep copy: it returns a new parameter object
  in which every array and every tensor is a new object with the same contents.  A
  value of another shape throws.
\<close>

fun copy_tensors :: "addr list \<Rightarrow> 'd heap \<Rightarrow> 'x exn + addr list \<times> 'd heap" where
  "copy_tensors [] h = Inr ([], h)"
| "copy_tensors (t # ts) h =
     (case lookup h t of
        Some (HTensor d) \<Rightarrow>
          (case alloc (HTensor d) h of (t', h1) \<Rightarrow>
             and_then (copy_tensors ts h1) (\<lambda>(ts', h2). Inr (t' # ts', h2)))
      | _ \<Rightarrow> Inl TypeError)"

fun copy_lists :: "(string \<times> addr) list \<Rightarrow> 'd heap \<Rightarrow> 'x exn + (string \<times> addr) list \<times> 'd heap" where
  "copy_lists [] h = Inr ([], h)"
| "copy_lists ((name, lst) # props) h =
     (case lookup h lst of
        Some (HArray ts) \<Rightarrow>
          and_then (copy_tensors ts h) (\<lambda>(ts', h1).
            case alloc (HArray ts') h1 of (lst', h2) \<Rightarrow>
              and_then (copy_lists props h2) (\<lambda>(props', h3). Inr ((name, lst') # props', h3)))
      | _ \<Rightarrow> Inl TypeError)"

definition deepCopy :: "addr \<Rightarrow> 'd heap \<Rightarrow> 'x exn + addr \<times> 'd heap" where
  "deepCopy p h =
     (case lookup h p of
        Some (HObject props) \<Rightarrow>
          and_then (copy_lists props h) (\<lambda>(props', h1). Inr (alloc (HObject props') h1))
      | _ \<Rightarrow> Inl TypeError)"

text \<open>
  The estimator (\<^verbatim>\<open>./elbo\<close> and its siblings), the optimizer (\<^verbatim>\<open>adnn/opt\<close>) and
  \<^verbatim>\<open>paramStruct.clip\<close> are parameters: each works on the heap and may throw.  The
  estimator is given the parameter object and the step, and hands a gradient object and
  the objective to its continuation.  Of the options, the ones that only print or write
  files (\<^verbatim>\<open>verbose\<close>, \<^verbatim>\<open>showGradNorm\<close>, \<^verbatim>\<open>checkGradients\<close>, \<^verbatim>\<open>logProgress\<close>,
  \<^verbatim>\<open>checkpointParams\<close>) are left out; \<^verbatim>\<open>clip\<close> is \<open>None\<close> for \<^verbatim>\<open>false\<close>.
\<close>

type_synonym ('d, 'x, 'r) heap_computation = "'d heap \<Rightarrow> ('x exn + 'r) \<times> 'd heap"

record ('d, 'x, 'o, 'c) optimize_collaborators =
  estimator :: "addr \<Rightarrow> nat \<Rightarrow> ('d, 'x, addr \<times> 'o) heap_computation"
  optimizer :: "addr \<Rightarrow> addr \<Rightarrow> nat \<Rightarrow> ('d, 'x, unit) heap_computation"
  paramStruct_clip :: "addr \<Rightarrow> 'c \<Rightarrow> ('d, 'x, unit) heap_computation"

record ('d, 'x, 'o, 'c, 's) optimize_options =
  params :: "addr option"
  steps :: "nat option"
  clip :: "'c option"
  onFinish :: "('s \<Rightarrow> 'o list \<Rightarrow> ('d, 'x, 's) heap_computation) option"

text \<open>
  \<^verbatim>\<open>
  var paramObj = paramStruct.deepCopy(options.params);
  ...
  return util.cpsLoop(
      options.steps,
      function(i, next) {
        return estimator(paramObj, i, function(gradObj, objective) {
          ...
          if (options.clip || options.showGradNorm) {
            var norm = paramStruct.norm(gradObj);
            ...
            if (options.clip) {
              paramStruct.clip(gradObj, options.clip, norm);
            }
          }
          ...
          history.push(objective);
          optimizer(gradObj, paramObj, i);
          return next();
        });
      },
      function() {
        return options.onFinish(s, function(s) {
          ...
          return k(s, paramObj);
        }, a, {history: history});
      });
  \<close>
  Modelled from the spec: \<^verbatim>\<open>util.cpsLoop(n, func, cont)\<close> (not among the sources) runs
  \<^verbatim>\<open>func\<close> for the steps 0 to \<open>n - 1\<close> in order and then \<^verbatim>\<open>cont\<close>.  The result of
  \<open>Optimize\<close> is what it passes to the continuation \<^verbatim>\<open>k\<close>: the store and the
  parameter object.  The default \<^verbatim>\<open>onFinish\<close> passes the store on, the default
  \<^verbatim>\<open>params\<close> is a new empty object, the default \<^verbatim>\<open>steps\<close> is 1.
\<close>

fun optimize_loop ::
  "('d, 'x, 'o, 'c) optimize_collaborators \<Rightarrow> 'c option \<Rightarrow> addr \<Rightarrow> nat \<Rightarrow> nat \<Rightarrow> 'o list
     \<Rightarrow> ('d, 'x, 'o list) heap_computation" where
  "optimize_loop E clp paramObj i 0 history h = (Inr history, h)"
| "optimize_loop E clp paramObj i (Suc n) history h =
     (case estimator E paramObj i h of
        (Inl e, h1) \<Rightarrow> (Inl e, h1)
      | (Inr (gradObj, objective), h1) \<Rightarrow>
          (case (case clp of None \<Rightarrow> (Inr (), h1)
                 | Some threshold \<Rightarrow> paramStruct_clip E gradObj threshold h1) of
             (Inl e, h2) \<Rightarrow> (Inl e, h2)
           | (Inr u, h2) \<Rightarrow>
               (case optimizer E gradObj paramObj i h2 of
                  (Inl e, h3) \<Rightarrow> (Inl e, h3)
                | (Inr u, h3) \<Rightarrow>
                    optimize_loop E clp paramObj (Suc i) n (history @ [objective]) h3)))"

definition Optimize ::
  "('d, 'x, 'o, 'c) optimize_collaborators \<Rightarrow> 's \<Rightarrow> ('d, 'x, 'o, 'c, 's) optimize_options
     \<Rightarrow> ('d, 'x, 's \<times> addr) heap_computation" where
  "Optimize E s opts h =
     (case (case params opts of None \<Rightarrow> alloc (HObject []) h | Some p \<Rightarrow> (p, h)) of
        (p, h0) \<Rightarrow>
     (case deepCopy p h0 of
        Inl e \<Rightarrow> (Inl e, h0)
      | Inr (paramObj, h1) \<Rightarrow>
     (case optimize_loop E (clip opts) paramObj 0 (or_default (steps opts) 1) [] h1 of
        (Inl e, h2) \<Rightarrow> (Inl e, h2)
      | (Inr history, h2) \<Rightarrow>
     (case or_default (onFinish opts) (\<lambda>s history h. (Inr s, h)) s history h2 of
        (Inl e, h3) \<Rightarrow> (Inl e, h3)
      | (Inr s', h3) \<Rightarrow> (Inr (s', paramObj), h3)))))"

text \<open>
  What a collaborator must keep to for a set \<open>A\<close> of objects to stay as it is: if no
  object of \<open>A\<close> can be reached from the addresses the collaborator is handed
  (\<open>apart\<close>), then it changes no object of \<open>A\<close> and stores no reference into \<open>A\<close>,
  neither in what it was handed nor in what it returns.  A collaborator that reaches
  its caller's objects by other ways (a closure, the store) is not covered.
\<close>

definition unchanged_on :: "addr set \<Rightarrow> 'd heap \<Rightarrow> 'd heap \<Rightarrow> bool" where
  "unchanged_on A h h' \<longleftrightarrow> (\<forall>a\<in>A. lookup h' a = lookup h a)"

definition apart :: "addr set \<Rightarrow> 'd heap \<Rightarrow> addr list \<Rightarrow> bool" where
  "apart A h roots \<longleftrightarrow> (\<forall>a\<in>A. a < length h) \<and> (\<forall>r\<in>set roots. reach h r \<inter> A = {})"

definition leaves_alone ::
  "addr set \<Rightarrow> addr list \<Rightarrow> ('d, 'x, 'r) heap_computation \<Rightarrow> ('r \<Rightarrow> addr list) \<Rightarrow> bool" where
  "leaves_alone A roots f out \<longleftrightarrow>
     (\<forall>h. apart A h roots \<longrightarrow>
        (case f h of
           (Inl e, h') \<Rightarrow> unchanged_on A h h'
         | (Inr r, h') \<Rightarrow> unchanged_on A h h' \<and> apart A h' (roots @ out r)))"

definition collaborators_leave_alone ::
  "addr set \<Rightarrow> ('d, 'x, 'o, 'c) optimize_collaborators \<Rightarrow> ('d, 'x, 'o, 'c, 's) optimize_options
     \<Rightarrow> bool" where
  "collaborators_leave_alone A E opts \<longleftrightarrow>
     (\<forall>q i. leaves_alone A [q] (estimator E q i) (\<lambda>(g, objective). [g]))
     \<and> (\<forall>q g i. leaves_alone A [q, g] (optimizer E g q i) (\<lambda>u. []))
     \<and> (\<forall>q g threshold. clip opts = Some threshold \<longrightarrow>
           leaves_alone A [q, g] (paramStruct_clip E g threshold) (\<lambda>u. []))
     \<and> (\<forall>q s history.
           leaves_alone A [q] (or_default (onFinish opts) (\<lambda>s history h. (Inr s, h)) s history)
             (\<lambda>u. []))"

text \<open>
  From address \<open>n\<close> on, the objects refer only to addresses from \<open>n\<close> on.
\<close>

definition new_closed :: "nat \<Rightarrow> 'd heap \<Rightarrow> bool" where
  "new_closed n h \<longleftrightarrow> (\<forall>a. n \<le> a \<and> a < length h \<longrightarrow> (\<forall>c\<in>set (refs (h ! a)). n \<le> c))"

section \<open>Concrete collaborators\<close>

text \<open>
  Collaborators that leave a trace, for evaluating the driver on concrete inputs: each
  pass appends its name to the program as one more statement.  A unit requires the
  caching transform when it mentions \<^verbatim>\<open>IncrementalMH\<close>, and opts out of it with the
  directive \<^verbatim>\<open>'no caching'\<close> as its first statement.
\<close>

definition tag :: "string \<Rightarrow> 'x pass" where
  "tag name p = Inr (Program (body p @ [Str name]))"

definition tracing :: "(string, unit, unit) collaborators" where
  "tracing = \<lparr>
     parse = (\<lambda>code ms. Inr (Program [Str code])),
     addFilename = (\<lambda>p filename. Inr p),
     thunkify = tag ''thunkify'',
     naming = tag ''naming'',
     cps = tag ''cps'',
     store = tag ''store'',
     optimize = tag ''optimize'',
     varargs = tag ''varargs'',
     trampoline = tag ''trampoline'',
     freevars = tag ''freevars'',
     caching_transform = tag ''caching'',
     caching_transformRequired = (\<lambda>p. Str ''IncrementalMH'' \<in> set (body p)),
     caching_hasNoCachingDirective = (\<lambda>p. body p \<noteq> [] \<and> hd (body p) = Str ''no caching''),
     escodegen_generate = (\<lambda>p filename code. Inr (''code'', ())),
     parsePackageCode = (\<lambda>v. Inr \<lparr>asts = [Program [Str ''header'']], macros = []\<rparr>) \<rparr>"

definition no_options :: "('x, 'm) options" where
  "no_options = \<lparr>verbose = None, generateCode = None, extra = None, transforms = None\<rparr>"

definition tree_only :: "('x, 'm) options" where
  "tree_only = \<lparr>verbose = None, generateCode = Some False, extra = None, transforms = None\<rparr>"

text \<open>
  The order of passes as the specification lists it, to compare with \<open>transform_asts\<close>:
  naming, CPS, store, varargs, optimize, trampoline, and the caching pass last, applied
  when caching is asked for.
\<close>

definition spec_transform_asts ::
  "('x, 'm, 's) collaborators \<Rightarrow> program list \<Rightarrow> 'x exn + program" where
  "spec_transform_asts C units =
     and_then (pipeline [naming C, cps C, store C, varargs C, optimize C, trampoline C]
                 (concatPrograms units))
       (\<lambda>p. if doCaching C units then caching_transform C p else Inr p)"

text \<open>
  A chain of thunks: thunk \<open>n\<close> returns thunk \<open>n - 1\<close>, thunk \<open>0\<close> returns the value
  \<open>final\<close>.  The world counts the calls.
\<close>

definition chain :: "nat val \<Rightarrow> nat \<Rightarrow> nat val list \<Rightarrow> (nat, unit, nat) computation" where
  "chain final n args w = (Inr (if n = 0 then final else VFun (n - 1)), Suc w)"

text \<open>
  An engine whose world is the list of what happened.  Evaluating any code gives the
  function \<open>n\<close>; function \<open>0\<close> returns 7, every other function throws.
\<close>

datatype event = Called nat "nat val list" | Reported "string exn" "unit option"

definition engine_of :: "nat \<Rightarrow> (nat, string, unit, event list) engine" where
  "engine_of n = \<lparr>
     eval_global = (\<lambda>c w. (Inr (VFun n), w)),
     call_function = (\<lambda>f args w.
        if f = 0 then (Inr (VNum 7), w @ [Called f args])
        else (Inl (Raised ''boom''), w @ [Called f args])),
     printFriendlyStackTrace = (\<lambda>e m w. (Inr VUndefined, w @ [Reported e m])) \<rparr>"


text \<open>
  Options that give the unit list and the transforms: no package, and naming alone.
\<close>

definition only_naming :: "(string, 'm) options" where
  "only_naming = \<lparr>verbose = None, generateCode = Some False,
     extra = Some \<lparr>asts = [], macros = []\<rparr>, transforms = Some [naming tracing]\<rparr>"

text \<open>
  The traced collaborators with a parser that throws.
\<close>

definition failing_parse :: "(string, unit, unit) collaborators" where
  "failing_parse = tracing \<lparr>parse := (\<lambda>code ms. Inl (Raised ''parse error''))\<rparr>"

text \<open>
  Collaborators for \<open>Optimize\<close> that change objects in place: the estimator
  allocates a gradient object, the optimizer decrements the first tensor of the first
  parameter of the object it is given, and clipping finds nothing to clip.
\<close>

definition fresh_gradient :: "addr \<Rightarrow> nat \<Rightarrow> (int, unit, addr \<times> int) heap_computation" where
  "fresh_gradient paramObj i h = (case alloc (HObject []) h of (g, h') \<Rightarrow> (Inr (g, 0), h'))"

definition decrement_first :: "addr \<Rightarrow> addr \<Rightarrow> nat \<Rightarrow> (int, unit, unit) heap_computation" where
  "decrement_first gradObj paramObj i h =
     (case lookup h paramObj of
        Some (HObject ((name, lst) # props)) \<Rightarrow>
          (case lookup h lst of
             Some (HArray (t # ts)) \<Rightarrow>
               (case lookup h t of
                  Some (HTensor d) \<Rightarrow> (Inr (), h[t := HTensor (d - 1)])
                | _ \<Rightarrow> (Inr (), h))
           | _ \<Rightarrow> (Inr (), h))
      | _ \<Rightarrow> (Inr (), h))"

definition in_place :: "(int, unit, int, int) optimize_collaborators" where
  "in_place = \<lparr>
     estimator = fresh_gradient,
     optimizer = decrement_first,
     paramStruct_clip = (\<lambda>g threshold h. (Inr (), h)) \<rparr>"

definition two_steps :: "(int, unit, int, int, unit) optimize_options" where
  "two_steps = \<lparr>params = Some 0, steps = Some 2, clip = Some 10, onFinish = None\<rparr>"

definition one_param :: "int heap" where
  "one_param = [HObject [(''w'', 1)], HArray [2], HTensor 5]"

section \<open>Properties of the syntax-tree functions\<close>

lemma copyAst_copyVal_id: "copyAst n = n" "copyVal v = v"
proof (induction n and v rule: copyAst_copyVal.induct)
  case (2 props)
  then show ?case by (auto intro!: map_idI)
qed (auto intro: map_idI)

lemma copyVal_primitive: "\<not> isObject v \<Longrightarrow> copyVal v = v"
  by (cases v) simp_all

lemma copyProgram_id: "copyProgram p = p"
  by (simp add: copyProgram_def copyAst_copyVal_id map_idI)

lemma copyProgram_node: "program_node (copyProgram p) = copyAst (program_node p)"
  by (simp add: copyProgram_def program_node_def)

text \<open>
  \<^verbatim>\<open>copyAst\<close> returns a tree of the same structure as its argument.
\<close>

theorem copyAst_structure: "copyAst n = n \<and> copyVal v = v"
  by (simp add: copyAst_copyVal_id)

lemma body_foldl_concat:
  "body (foldl concat_programs p ps) = body p @ concat (map body ps)"
  by (induction ps arbitrary: p) (simp_all add: concat_programs_def build_program_def)

text \<open>
  Claim C10.  For every list of programs, the body of \<open>concatPrograms\<close> is the
  concatenation of the bodies in list order; the empty list gives the empty program;
  and \<open>concatPrograms\<close> takes list concatenation to concatenation of bodies.
\<close>

theorem concatPrograms_bodies:
  "body (concatPrograms ps) = concat (map body ps)
   \<and> concatPrograms [] = emptyProgram
   \<and> body (concatPrograms (ps @ qs)) = body (concatPrograms ps) @ body (concatPrograms qs)"
  by (simp add: concatPrograms_def body_foldl_concat emptyProgram_def)

section \<open>Properties of the compiler driver\<close>

lemma or_default_simps: "or_default None d = d" "or_default (Some a) d = a"
  by (simp_all add: or_default_def)

lemma and_then_Inr: "and_then (Inr a) f = f a"
  by (simp add: and_then_def)

lemma and_then_Inl: "and_then (Inl e) f = Inl e"
  by (simp add: and_then_def)

lemma and_then_assoc: "and_then (and_then r f) g = and_then r (\<lambda>a. and_then (f a) g)"
  by (cases r) (simp_all add: and_then_def)

lemma map_result_Inr: "map_result Inr xs = Inr xs"
  by (induction xs) (simp_all add: and_then_def)

lemma map_result_cong:
  "(\<And>x. x \<in> set xs \<Longrightarrow> f x = g x) \<Longrightarrow> map_result f xs = map_result g xs"
  by (induction xs) simp_all

lemmas tracing_defs =
  compile_def compile_inner_def transform_asts_def caching_stage_def doCaching_def
  applyCaching_def default_transforms_def tracing_def tag_def and_then_def
  or_default_def timeif_def concatPrograms_def concat_programs_def build_program_def
  emptyProgram_def copyProgram_def

text \<open>
  Claim C1, as the code has it.  With the default list of transforms, \<open>compile\<close>
  parses the program and adds the file name, applies the caching transform to the units
  (only when some unit requires it), joins the units, runs the free-variable analysis
  (under the same condition), and then applies thunkify, naming, cps, store, optimize,
  varargs and trampoline in this order, each to the result of the one before; the first
  exception ends the compilation.
\<close>

theorem compile_pass_order:
  assumes "transforms opts = None"
  shows "compile C filename code opts =
     and_then (case extra opts of Some ex \<Rightarrow> Inr ex
               | None \<Rightarrow> parsePackageCode C (or_default (verbose opts) False)) (\<lambda>ex.
     and_then (parse C code (macros ex)) (\<lambda>parsed.
     and_then (addFilename C parsed filename) (\<lambda>programAst.
     and_then (caching_stage C (map copyProgram (asts ex) @ [programAst])) (\<lambda>units.
     and_then (if doCaching C (map copyProgram (asts ex) @ [programAst])
               then freevars C (concatPrograms units) else Inr (concatPrograms units)) (\<lambda>a0.
     and_then (thunkify C a0) (\<lambda>a1.
     and_then (naming C a1) (\<lambda>a2.
     and_then (cps C a2) (\<lambda>a3.
     and_then (store C a3) (\<lambda>a4.
     and_then (optimize C a4) (\<lambda>a5.
     and_then (varargs C a5) (\<lambda>a6.
     and_then (trampoline C a6) (\<lambda>a7.
       if or_default (generateCode opts) True
       then and_then (escodegen_generate C a7 filename code) (\<lambda>(c, m). Inr (CodeAndMap c m))
       else Inr (Tree a7)))))))))))))"
proof -
  have fold: "and_then (pipeline (default_transforms C) a0) g =
      and_then (thunkify C a0) (\<lambda>a1. and_then (naming C a1) (\<lambda>a2. and_then (cps C a2) (\<lambda>a3.
      and_then (store C a3) (\<lambda>a4. and_then (optimize C a4) (\<lambda>a5. and_then (varargs C a5) (\<lambda>a6.
      and_then (trampoline C a6) g))))))" for a0 and g :: "program \<Rightarrow> 'a exn + 'd"
    by (simp add: default_transforms_def and_then_assoc)
      (simp add: and_then_def split: sum.splits)
  show ?thesis
    using assms
    by (simp add: compile_def compile_inner_def transform_asts_def timeif_def or_default_simps
        and_then_assoc and_then_Inr fold Let_def)
qed

text \<open>
  The theorem at the traced collaborators, for a program that does not ask for caching.
\<close>

theorem compile_pass_order_witness:
  "transforms (tree_only :: (string, unit) options) = None
   \<and> compile tracing ''main.wppl'' ''1 + 2'' tree_only =
       Inr (Tree (Program [Str ''header'', Str ''1 + 2'', Str ''thunkify'', Str ''naming'',
         Str ''cps'', Str ''store'', Str ''optimize'', Str ''varargs'', Str ''trampoline'']))"
  using compile_pass_order [of tree_only tracing "''main.wppl''" "''1 + 2''"]
  by (simp add: tracing_defs tree_only_def)

text \<open>
  The order the specification lists is not the order of the code: for a program that
  requires caching, the code applies the caching transform first and to each unit, runs
  optimize before varargs, and starts with thunkify; the listed order gives another tree.
\<close>

theorem compile_pass_order_counterexample:
  "compile tracing ''main.wppl'' ''IncrementalMH'' tree_only =
     Inr (Tree (Program [Str ''header'', Str ''caching'', Str ''IncrementalMH'', Str ''caching'',
       Str ''freevars'', Str ''thunkify'', Str ''naming'', Str ''cps'', Str ''store'',
       Str ''optimize'', Str ''varargs'', Str ''trampoline'']))
   \<and> spec_transform_asts tracing [Program [Str ''header''], Program [Str ''IncrementalMH'']] =
     Inr (Program [Str ''header'', Str ''IncrementalMH'', Str ''naming'', Str ''cps'',
       Str ''store'', Str ''varargs'', Str ''optimize'', Str ''trampoline'', Str ''caching''])
   \<and> compile tracing ''main.wppl'' ''IncrementalMH'' tree_only \<noteq>
     and_then (spec_transform_asts tracing
                 [Program [Str ''header''], Program [Str ''IncrementalMH'']])
       (\<lambda>p. Inr (Tree p))"
  by (simp add: tracing_defs tree_only_def spec_transform_asts_def)

text \<open>
  A list of transforms given in the options replaces the default list as a whole; the
  caching stage, the joining of the units and the free-variable analysis stay.
\<close>

theorem compile_given_transforms:
  assumes "transforms opts = Some ts" and "extra opts = Some ex"
  shows "compile C filename code opts =
     and_then (parse C code (macros ex)) (\<lambda>parsed.
     and_then (addFilename C parsed filename) (\<lambda>programAst.
     and_then (transform_asts C ts (map copyProgram (asts ex) @ [programAst])) (\<lambda>transformedAst.
       if or_default (generateCode opts) True
       then and_then (escodegen_generate C transformedAst filename code)
              (\<lambda>(c, m). Inr (CodeAndMap c m))
       else Inr (Tree transformedAst))))"
  using assms
  by (simp add: compile_def compile_inner_def timeif_def or_default_simps and_then_Inr)

text \<open>
  The theorem for the list with the single pass naming.
\<close>

theorem compile_given_transforms_witness:
  "transforms (only_naming :: (string, unit) options) = Some [naming tracing]
   \<and> extra (only_naming :: (string, unit) options) = Some \<lparr>asts = [], macros = []\<rparr>
   \<and> compile tracing ''main.wppl'' ''1 + 2'' only_naming =
       Inr (Tree (Program [Str ''1 + 2'', Str ''naming'']))"
  using compile_given_transforms
    [of only_naming "[naming tracing]" "\<lparr>asts = [], macros = []\<rparr>" tracing "''main.wppl''" "''1 + 2''"]
  by (simp add: tracing_defs only_naming_def)

text \<open>
  Claim C4, as the code has it.  The caching stage transforms a unit exactly when some
  unit of the compilation requires the caching transform and the unit itself does not
  carry the no-caching directive; every other unit is passed on as it is.
\<close>

theorem caching_stage_units:
  "caching_stage C units =
     map_result (\<lambda>ast. if doCaching C units \<and> \<not> caching_hasNoCachingDirective C ast
                        then caching_transform C ast else Inr ast) units"
proof (cases "doCaching C units")
  case True
  then show ?thesis
    by (auto simp: caching_stage_def applyCaching_def intro: map_result_cong)
next
  case False
  then show ?thesis
    by (simp add: caching_stage_def map_result_Inr)
qed

text \<open>
  A unit that does not require caching is transformed all the same when another unit
  of the compilation requires it: here the header, next to a program that does.
\<close>

theorem caching_opt_in_counterexample:
  "\<not> caching_transformRequired tracing (Program [Str ''header''])
   \<and> caching_stage tracing [Program [Str ''header''], Program [Str ''IncrementalMH'']] =
       Inr [Program [Str ''header'', Str ''caching''],
            Program [Str ''IncrementalMH'', Str ''caching'']]"
  by (simp add: tracing_defs)

section \<open>Properties of the driver loop and of run\<close>

lemma runTrampoline_falsy: "\<not> truthy t \<Longrightarrow> runTrampoline call t w = Some (Inr VUndefined, w)"
  by (subst runTrampoline.simps) simp

lemma runTrampoline_step:
  "truthy t \<Longrightarrow> apply_val call t [] w = (Inr t1, w1) \<Longrightarrow>
   runTrampoline call t w = runTrampoline call t1 w1"
  by (subst runTrampoline.simps) simp

lemma runTrampoline_throw:
  "truthy t \<Longrightarrow> apply_val call t [] w = (Inl e, w1) \<Longrightarrow>
   runTrampoline call t w = Some (Inl e, w1)"
  by (subst runTrampoline.simps) simp

lemma runTrampoline_result:
  fixes call :: "'f \<Rightarrow> 'f val list \<Rightarrow> ('f, 'x, 'w) computation"
  assumes "runTrampoline call t w = Some r"
  shows "fst r = Inr VUndefined \<or> isl (fst r)"
proof (rule runTrampoline.raw_induct [OF _ assms])
  fix loop :: "('f \<Rightarrow> 'f val list \<Rightarrow> ('f, 'x, 'w) computation) \<Rightarrow> 'f val \<Rightarrow> 'w
      \<Rightarrow> (('x exn + 'f val) \<times> 'w) option"
  fix call t w r
  assume IH: "\<And>call t w r. loop call t w = Some r \<Longrightarrow> fst r = Inr VUndefined \<or> isl (fst r)"
  assume unfold: "(if truthy t
      then case apply_val call t [] w of (Inl e, w1) \<Rightarrow> Some (Inl e, w1)
           | (Inr t1, w1) \<Rightarrow> loop call t1 w1
      else Some (Inr VUndefined, w)) = Some r"
  show "fst r = Inr VUndefined \<or> isl (fst r)"
  proof (cases "truthy t")
    case False
    with unfold show ?thesis by auto
  next
    case True
    obtain a w1 where a: "apply_val call t [] w = (a, w1)"
      by (cases "apply_val call t [] w")
    show ?thesis
    proof (cases a)
      case (Inl e)
      with unfold True a show ?thesis by auto
    next
      case (Inr t1)
      with unfold True a have "loop call t1 w1 = Some r" by simp
      then show ?thesis by (rule IH)
    qed
  qed
qed

lemma runTrampoline_returns_undefined:
  "runTrampoline call t w = Some (Inr v, w') \<Longrightarrow> v = VUndefined"
  using runTrampoline_result [of call t w "(Inr v, w')"] by auto

text \<open>
  Claim C2, as the code has it.  The loop calls the current result as long as it is
  truthy and goes on with what the call returns; it stops at the first falsy result and
  returns \<^verbatim>\<open>undefined\<close>, never the result itself; an exception of a call ends the
  loop, and a truthy result that is not a function is called all the same, which throws
  a TypeError.
\<close>

theorem runTrampoline_loop:
  "(\<not> truthy t \<longrightarrow> runTrampoline call t w = Some (Inr VUndefined, w))
   \<and> (truthy t \<and> apply_val call t [] w = (Inr t1, w1) \<longrightarrow>
        runTrampoline call t w = runTrampoline call t1 w1)
   \<and> (truthy t \<and> apply_val call t [] w = (Inl e, w1) \<longrightarrow>
        runTrampoline call t w = Some (Inl e, w1))
   \<and> (truthy t \<and> (\<forall>f. t \<noteq> VFun f) \<longrightarrow> runTrampoline call t w = Some (Inl TypeError, w))
   \<and> (runTrampoline call t w = Some (Inr v, w') \<longrightarrow> v = VUndefined)"
proof (intro conjI impI)
  assume "truthy t \<and> (\<forall>f. t \<noteq> VFun f)"
  then have "truthy t" and "apply_val call t [] w = (Inl TypeError, w)"
    by (cases t; simp add: apply_val_def)+
  then show "runTrampoline call t w = Some (Inl TypeError, w)"
    by (rule runTrampoline_throw)
qed (auto intro: runTrampoline_falsy runTrampoline_step runTrampoline_throw
      dest: runTrampoline_returns_undefined)

text \<open>
  The theorem along a chain of three thunks that ends in the value 0, and along one
  thunk that returns a non-empty string.
\<close>

theorem runTrampoline_loop_witness:
  "runTrampoline (chain (VNum 0)) (VFun 2) 0 = Some (Inr VUndefined, 3)
   \<and> runTrampoline (chain (VStr ''done'')) (VFun 0) 0 = Some (Inl TypeError, 1)"
proof -
  let ?c = "chain (VNum 0)"
  have "runTrampoline ?c (VNum 0) 3 = Some (Inr VUndefined, 3)"
    using runTrampoline_loop [of "VNum 0" ?c 3] by simp
  moreover have "runTrampoline ?c (VFun 0) 2 = runTrampoline ?c (VNum 0) 3"
    using runTrampoline_loop [of "VFun 0" ?c 2 "VNum 0" 3] by (simp add: apply_val_def chain_def)
  moreover have "runTrampoline ?c (VFun 1) 1 = runTrampoline ?c (VFun 0) 2"
    using runTrampoline_loop [of "VFun 1" ?c 1 "VFun 0" 2] by (simp add: apply_val_def chain_def)
  moreover have "runTrampoline ?c (VFun 2) 0 = runTrampoline ?c (VFun 1) 1"
    using runTrampoline_loop [of "VFun 2" ?c 0 "VFun 1" 1] by (simp add: apply_val_def chain_def)
  moreover have "runTrampoline (chain (VStr ''done'')) (VStr ''done'') 1 = Some (Inl TypeError, 1)"
    using runTrampoline_loop [of "VStr ''done''" "chain (VStr ''done'')" 1] by simp
  moreover have "runTrampoline (chain (VStr ''done'')) (VFun 0) 0 =
      runTrampoline (chain (VStr ''done'')) (VStr ''done'') 1"
    using runTrampoline_loop [of "VFun 0" "chain (VStr ''done'')" 0 "VStr ''done''" 1]
    by (simp add: apply_val_def chain_def)
  ultimately show ?thesis by simp
qed

text \<open>
  The loop does not return the ordinary value it stops at: started at the value 0 it
  returns \<^verbatim>\<open>undefined\<close>, and started at the value 7 it throws.
\<close>

theorem runTrampoline_returns_value_counterexample:
  "runTrampoline (chain (VNum 0)) (VNum 0) 0 = Some (Inr VUndefined, 0)
   \<and> runTrampoline (chain (VNum 0)) (VNum 0) 0 \<noteq> Some (Inr (VNum 0), 0)
   \<and> runTrampoline (chain (VNum 7)) (VNum 7) 0 = Some (Inl TypeError, 0)"
  by (simp add: runTrampoline.simps apply_val_def)

text \<open>
  The loop returns for a chain of thunks of every length \<open>n\<close>, after \<open>n + 1\<close> calls.
\<close>

theorem runTrampoline_chain_returns:
  "runTrampoline (chain VUndefined) (VFun n) w = Some (Inr VUndefined, w + n + 1)"
proof (induction n arbitrary: w)
  case 0
  have "runTrampoline (chain VUndefined) (VFun 0) w = runTrampoline (chain VUndefined) VUndefined (Suc w)"
    by (rule runTrampoline_step) (simp_all add: apply_val_def chain_def)
  then show ?case by (simp add: runTrampoline_falsy)
next
  case (Suc n)
  have "runTrampoline (chain VUndefined) (VFun (Suc n)) w =
      runTrampoline (chain VUndefined) (VFun n) (Suc w)"
    by (rule runTrampoline_step) (simp_all add: apply_val_def chain_def)
  with Suc show ?case by simp
qed







text \<open>
  Claim C7.  An exception thrown while the compiled code is evaluated or called inside
  \<open>run\<close> is caught there and handed to \<^verbatim>\<open>printFriendlyStackTrace\<close> together with the
  source map of the compilation; \<open>run\<close> then returns, unless the reporter itself
  throws.
\<close>

theorem run_reports_exception:
  assumes "compile C filename code opts = Inr codeAndMap"
    and "invoke_compiled E codeAndMap k w = (Inl exception, w1)"
  shows "run C E filename code k opts w =
     (case printFriendlyStackTrace E exception (source_map_of codeAndMap) w1 of
        (Inl e, w2) \<Rightarrow> (Inl e, w2)
      | (Inr u, w2) \<Rightarrow> (Inr VUndefined, w2))"
  using assms by (simp add: run_def timeif_def)

text \<open>
  The theorem at an engine whose compiled function throws.
\<close>

theorem run_reports_exception_witness:
  "compile tracing ''main.wppl'' ''1 + 2'' no_options = Inr (CodeAndMap ''code'' ())
   \<and> invoke_compiled (engine_of 1) (CodeAndMap ''code'' ()) (VFun 5) [] =
       (Inl (Raised ''boom''), [Called 1 [VObj [], VFun 5, VStr []]])
   \<and> run tracing (engine_of 1) ''main.wppl'' ''1 + 2'' (VFun 5) no_options [] =
       (Inr VUndefined,
        [Called 1 [VObj [], VFun 5, VStr []], Reported (Raised ''boom'') (Some ())])"
proof -
  have c: "compile tracing ''main.wppl'' ''1 + 2'' no_options = Inr (CodeAndMap ''code'' ())"
    by (simp add: tracing_defs no_options_def)
  have i: "invoke_compiled (engine_of 1) (CodeAndMap ''code'' ()) (VFun 5) [] =
       (Inl (Raised ''boom''), [Called 1 [VObj [], VFun 5, VStr []]])"
    by (simp add: invoke_compiled_def eval_call_def apply_val_def engine_of_def)
  show ?thesis
    using c i run_reports_exception [OF c i]
    by (simp add: engine_of_def)
qed

text \<open>
  An exception thrown by the compilation is not caught in \<open>run\<close>: it reaches the
  caller of \<open>run\<close>, and neither the compiled code nor the reporter runs.
\<close>

theorem run_propagates_compile_error:
  assumes "compile C filename code opts = Inl e"
  shows "run C E filename code k opts w = (Inl e, w)"
  using assms by (simp add: run_def)

text \<open>
  The theorem at a parser that throws.
\<close>

theorem run_propagates_compile_error_witness:
  "compile failing_parse ''main.wppl'' ''1 +'' no_options = Inl (Raised ''parse error'')
   \<and> run failing_parse (engine_of 0) ''main.wppl'' ''1 +'' (VFun 5) no_options [] =
       (Inl (Raised ''parse error''), [])"
proof -
  have c: "compile failing_parse ''main.wppl'' ''1 +'' no_options = Inl (Raised ''parse error'')"
    by (simp add: failing_parse_def tracing_defs no_options_def)
  from c run_propagates_compile_error [OF c, of "engine_of 0" "VFun 5" "[]"]
  show ?thesis by simp
qed

section \<open>Properties of the optimizer\<close>

lemma reach_allocated: "b \<in> reach h a \<Longrightarrow> b < length h"
  by (induction rule: reach.induct) simp_all

lemma lookup_append_old: "a < length h \<Longrightarrow> lookup (h @ ext) a = lookup h a"
  by (simp add: lookup_def nth_append)

lemma unchanged_on_refl: "unchanged_on A h h"
  by (simp add: unchanged_on_def)

lemma unchanged_on_trans:
  "unchanged_on A h h1 \<Longrightarrow> unchanged_on A h1 h2 \<Longrightarrow> unchanged_on A h h2"
  by (simp add: unchanged_on_def)

lemma unchanged_on_append: "\<forall>a\<in>A. a < length h \<Longrightarrow> unchanged_on A h (h @ ext)"
  by (simp add: unchanged_on_def lookup_append_old)

lemma reach_new_closed:
  assumes "new_closed n h" and "n \<le> a" and "b \<in> reach h a"
  shows "n \<le> b"
  using assms(3)
proof (induction rule: reach.induct)
  case here
  show ?case by (rule assms(2))
next
  case (step b c)
  from step.hyps(1) have "b < length h" by (rule reach_allocated)
  with step assms(1) show ?case by (auto simp: new_closed_def)
qed

lemma new_closed_snoc:
  "new_closed n h \<Longrightarrow> n \<le> length h \<Longrightarrow> \<forall>c\<in>set (refs ob). n \<le> c \<Longrightarrow> new_closed n (h @ [ob])"
  by (auto simp: new_closed_def nth_append less_Suc_eq)

lemma copy_tensors_grows:
  "(copy_tensors ts h :: 'x exn + addr list \<times> 'd heap) = Inr (ts', h') \<Longrightarrow> new_closed n h \<Longrightarrow> n \<le> length h \<Longrightarrow>
   (\<exists>ext. h' = h @ ext) \<and> new_closed n h' \<and> (\<forall>t\<in>set ts'. n \<le> t)"
proof (induction ts arbitrary: h ts' h')
  case Nil
  then show ?case by simp
next
  case (Cons t ts)
  from Cons.prems(1) obtain d where d: "lookup h t = Some (HTensor d)"
    by (auto split: option.splits obj.splits)
  let ?h1 = "h @ [HTensor d]"
  from Cons.prems(1) d have "\<exists>ts1. (copy_tensors ts ?h1 :: 'x exn + addr list \<times> 'd heap) = Inr (ts1, h') \<and> ts' = length h # ts1"
    by (auto simp: alloc_def and_then_def split: sum.splits)
  then obtain ts1 where
    rec: "(copy_tensors ts ?h1 :: 'x exn + addr list \<times> 'd heap) = Inr (ts1, h')" and ts': "ts' = length h # ts1"
    by blast
  have "new_closed n ?h1"
    using Cons.prems(2,3) by (simp add: new_closed_snoc)
  with Cons.IH [OF rec] Cons.prems(3)
  have "(\<exists>ext. h' = ?h1 @ ext) \<and> new_closed n h' \<and> (\<forall>t\<in>set ts1. n \<le> t)" by simp
  with ts' Cons.prems(3) show ?case by auto
qed

lemma copy_lists_grows:
  "(copy_lists props h :: 'x exn + (string \<times> addr) list \<times> 'd heap) = Inr (props', h') \<Longrightarrow>
   new_closed n h \<Longrightarrow> n \<le> length h \<Longrightarrow>
   (\<exists>ext. h' = h @ ext) \<and> new_closed n h' \<and> (\<forall>c\<in>set (map snd props'). n \<le> c)"
proof (induction props arbitrary: h props' h')
  case Nil
  then show ?case by simp
next
  case (Cons entry props)
  obtain name lst where entry: "entry = (name, lst)" by (cases entry)
  from Cons.prems(1) entry obtain ts where ts: "lookup h lst = Some (HArray ts)"
    by (auto split: option.splits obj.splits)
  from Cons.prems(1) entry ts have "\<exists>ts' h1. (copy_tensors ts h :: 'x exn + addr list \<times> 'd heap) = Inr (ts', h1)"
    by (auto simp: and_then_def split: sum.splits)
  then obtain ts' h1 where
    ct: "(copy_tensors ts h :: 'x exn + addr list \<times> 'd heap) = Inr (ts', h1)"
    by blast
  let ?h2 = "h1 @ [HArray ts']"
  from Cons.prems(1) entry ts ct
  have "\<exists>props1. (copy_lists props ?h2 :: 'x exn + (string \<times> addr) list \<times> 'd heap)
            = Inr (props1, h') \<and> props' = (name, length h1) # props1"
    by (auto simp: alloc_def and_then_def split: sum.splits)
  then obtain props1 where
    rec: "(copy_lists props ?h2 :: 'x exn + (string \<times> addr) list \<times> 'd heap) = Inr (props1, h')" and props': "props' = (name, length h1) # props1"
    by blast
  from copy_tensors_grows [OF ct Cons.prems(2,3)] obtain ext1 where
    h1: "h1 = h @ ext1" and c1: "new_closed n h1" and t1: "\<forall>t\<in>set ts'. n \<le> t"
    by auto
  from h1 Cons.prems(3) have n1: "n \<le> length h1" by simp
  have "new_closed n ?h2"
    using c1 n1 t1 by (simp add: new_closed_snoc)
  with Cons.IH [OF rec] n1
  have "(\<exists>ext. h' = ?h2 @ ext) \<and> new_closed n h' \<and> (\<forall>c\<in>set (map snd props1). n \<le> c)" by simp
  with props' h1 n1 show ?case by auto
qed

lemma deepCopy_fresh:
  assumes "(deepCopy p h :: 'x exn + addr \<times> 'd heap) = Inr (q, h1)"
  shows "(\<exists>ext. h1 = h @ ext) \<and> new_closed (length h) h1 \<and> length h \<le> q \<and> q < length h1
         \<and> p < length h"
proof -
  from assms obtain props where props: "lookup h p = Some (HObject props)"
    by (auto simp: deepCopy_def split: option.splits obj.splits)
  from assms props
  have "\<exists>props' h0. (copy_lists props h :: 'x exn + (string \<times> addr) list \<times> 'd heap)
            = Inr (props', h0) \<and> q = length h0
          \<and> h1 = h0 @ [HObject props']"
    by (auto simp: deepCopy_def alloc_def and_then_def split: sum.splits)
  then obtain props' h0 where
    cl: "(copy_lists props h :: 'x exn + (string \<times> addr) list \<times> 'd heap) = Inr (props', h0)" and q: "q = length h0"
    and h1: "h1 = h0 @ [HObject props']"
    by blast
  have "new_closed (length h) h" by (simp add: new_closed_def)
  from copy_lists_grows [OF cl this] obtain ext where
    h0: "h0 = h @ ext" and c0: "new_closed (length h) h0"
    and r0: "\<forall>c\<in>set (map snd props'). length h \<le> c"
    by auto
  have "new_closed (length h) h1"
    unfolding h1 using c0 r0 h0 by (intro new_closed_snoc) auto
  moreover from props have "p < length h"
    by (simp add: lookup_def split: if_splits)
  ultimately show ?thesis using h0 h1 q by auto
qed

lemma deepCopy_apart:
  assumes "(deepCopy p h :: 'x exn + addr \<times> 'd heap) = Inr (q, h1)" and "\<forall>a\<in>A. a < length h"
  shows "unchanged_on A h h1 \<and> apart A h1 [q]"
proof -
  from deepCopy_fresh [OF assms(1)] obtain ext where
    h1: "h1 = h @ ext" and c: "new_closed (length h) h1" and q: "length h \<le> q"
    by auto
  have "reach h1 q \<inter> A = {}"
  proof (rule ccontr)
    assume "reach h1 q \<inter> A \<noteq> {}"
    then obtain b where "b \<in> reach h1 q" and "b \<in> A" by auto
    with reach_new_closed [OF c q] assms(2) show False by force
  qed
  with assms(2) h1 show ?thesis
    by (auto simp: apart_def unchanged_on_append)
qed

lemma apart_sub: "apart A h roots \<Longrightarrow> set roots' \<subseteq> set roots \<Longrightarrow> apart A h roots'"
  by (auto simp: apart_def)

lemma leaves_aloneD:
  assumes "leaves_alone A roots f out" and "apart A h roots" and "f h = (r, h')"
  shows "unchanged_on A h h'" and "\<And>v. r = Inr v \<Longrightarrow> apart A h' (roots @ out v)"
proof -
  from assms(1,2) have
    "case f h of (Inl e, h') \<Rightarrow> unchanged_on A h h'
     | (Inr r, h') \<Rightarrow> unchanged_on A h h' \<and> apart A h' (roots @ out r)"
    by (simp add: leaves_alone_def)
  with assms(3) show "unchanged_on A h h'" and "\<And>v. r = Inr v \<Longrightarrow> apart A h' (roots @ out v)"
    by (cases r; simp)+
qed

lemma optimize_loop_leaves_alone:
  assumes est: "\<And>q i. leaves_alone A [q] (estimator E q i) (\<lambda>(g, objective). [g])"
    and opt: "\<And>q g i. leaves_alone A [q, g] (optimizer E g q i) (\<lambda>u. [])"
    and clp: "\<And>q g threshold. c = Some threshold \<Longrightarrow>
                leaves_alone A [q, g] (paramStruct_clip E g threshold) (\<lambda>u. [])"
  shows "apart A h [q] \<Longrightarrow> optimize_loop E c q i n hist h = (r, h') \<Longrightarrow>
         unchanged_on A h h' \<and> (isl r \<or> apart A h' [q])"
proof (induction n arbitrary: i hist h)
  case 0
  then show ?case by (auto simp: unchanged_on_refl)
next
  case (Suc n)
  obtain r1 h1 where e: "estimator E q i h = (r1, h1)" by (cases "estimator E q i h")
  note e1 = leaves_aloneD [OF est Suc.prems(1) e]
  show ?case
  proof (cases r1)
    case (Inl x)
    with Suc.prems(2) e e1(1) show ?thesis by auto
  next
    case (Inr go)
    obtain g objective where go: "go = (g, objective)" by (cases go)
    from e1(2) [OF Inr] go have a1: "apart A h1 [q, g]" by simp
    define cl where "cl = (case c of None \<Rightarrow> (Inr (), h1)
        | Some threshold \<Rightarrow> paramStruct_clip E g threshold h1)"
    obtain r2 h2 where c2: "cl = (r2, h2)" by (cases cl)
    have u2: "unchanged_on A h1 h2" and a2: "isl r2 \<or> apart A h2 [q, g]"
    proof -
      show "unchanged_on A h1 h2"
      proof (cases c)
        case None
        with c2 show ?thesis by (simp add: cl_def unchanged_on_refl)
      next
        case (Some threshold)
        with c2 have "paramStruct_clip E g threshold h1 = (r2, h2)" by (simp add: cl_def)
        from leaves_aloneD(1) [OF clp [OF Some] a1 this] show ?thesis .
      qed
      show "isl r2 \<or> apart A h2 [q, g]"
      proof (cases c)
        case None
        with c2 a1 show ?thesis by (auto simp: cl_def)
      next
        case (Some threshold)
        with c2 have "paramStruct_clip E g threshold h1 = (r2, h2)" by (simp add: cl_def)
        from leaves_aloneD(2) [OF clp [OF Some] a1 this] show ?thesis
          by (cases r2) auto
      qed
    qed
    show ?thesis
    proof (cases r2)
      case (Inl x)
      with Suc.prems(2) e Inr go c2 have "h' = h2"
        by (simp add: cl_def)
      with e1(1) u2 Suc.prems(2) e Inr go c2 Inl show ?thesis
        by (auto simp: cl_def intro: unchanged_on_trans)
    next
      case r2: (Inr u)
      with a2 have a2': "apart A h2 [q, g]" by simp
      obtain r3 h3 where o3: "optimizer E g q i h2 = (r3, h3)"
        by (cases "optimizer E g q i h2")
      note o = leaves_aloneD [OF opt a2' o3]
      have u3: "unchanged_on A h h3"
        using e1(1) u2 o(1) by (blast intro: unchanged_on_trans)
      show ?thesis
      proof (cases r3)
        case (Inl x)
        with Suc.prems(2) e Inr go c2 r2 o3 u3 show ?thesis
          by (auto simp: cl_def)
      next
        case r3: (Inr u')
        from o(2) [OF r3] have a3: "apart A h3 [q]"
          by (auto intro: apart_sub)
        from Suc.prems(2) e Inr go c2 r2 o3 r3
        have "optimize_loop E c q (Suc i) n (hist @ [objective]) h3 = (r, h')"
          by (simp add: cl_def)
        from Suc.IH [OF a3 this] u3 show ?thesis
          by (blast intro: unchanged_on_trans)
      qed
    qed
  qed
qed

text \<open>
  Claim C9.  \<open>Optimize\<close> hands its collaborators a deep copy of \<^verbatim>\<open>options.params\<close>:
  when the collaborators leave alone what they are not handed, every object of the
  caller's parameter object is after \<open>Optimize\<close> as it was before, for any number of
  steps and also when a collaborator throws; and the parameter object delivered to the
  continuation is another object, from which no object of the caller's can be reached.
\<close>

theorem Optimize_params_unchanged:
  assumes "params opts = Some p"
    and "collaborators_leave_alone (reach h p) E opts"
    and "Optimize E s opts h = (r, h')"
  shows "(\<forall>a\<in>reach h p. lookup h' a = lookup h a)
         \<and> (\<forall>s' paramObj. r = Inr (s', paramObj) \<longrightarrow>
               paramObj \<noteq> p \<and> paramObj \<notin> reach h p \<and> reach h' paramObj \<inter> reach h p = {})"
proof -
  let ?A = "reach h p"
  have alloc: "\<forall>a\<in>?A. a < length h" by (auto dest: reach_allocated)
  show ?thesis
  proof (cases "deepCopy p h :: 'b exn + addr \<times> 'a heap")
    case (Inl e)
    with assms(1,3) show ?thesis by (auto simp: Optimize_def)
  next
    case (Inr qh)
    obtain q h1 where qh: "qh = (q, h1)" by (cases qh)
    with Inr have dc: "(deepCopy p h :: 'b exn + addr \<times> 'a heap) = Inr (q, h1)" by simp
    from deepCopy_apart [OF dc alloc] have u1: "unchanged_on ?A h h1" and a1: "apart ?A h1 [q]"
      by auto
    from deepCopy_fresh [OF dc] have fresh: "length h \<le> q" and p: "p < length h" by auto
    from p have pA: "p \<in> ?A" by (rule reach.here)
    obtain r2 h2 where l2: "optimize_loop E (clip opts) q 0 (or_default (steps opts) 1) [] h1 = (r2, h2)"
      by (cases "optimize_loop E (clip opts) q 0 (or_default (steps opts) 1) [] h1")
    from assms(2) have
      est: "\<And>q i. leaves_alone ?A [q] (estimator E q i) (\<lambda>(g, objective). [g])"
      and opt: "\<And>q g i. leaves_alone ?A [q, g] (optimizer E g q i) (\<lambda>u. [])"
      and clp: "\<And>q g threshold. clip opts = Some threshold \<Longrightarrow>
                leaves_alone ?A [q, g] (paramStruct_clip E g threshold) (\<lambda>u. [])"
      and fin: "\<And>q s history. leaves_alone ?A [q]
                 (or_default (onFinish opts) (\<lambda>s history h. (Inr s, h)) s history) (\<lambda>u. [])"
      by (auto simp: collaborators_leave_alone_def)
    from optimize_loop_leaves_alone [OF est opt clp a1 l2]
    have u2: "unchanged_on ?A h1 h2" and a2: "isl r2 \<or> apart ?A h2 [q]" by auto
    show ?thesis
    proof (cases r2)
      case (Inl e)
      with assms(1,3) dc l2 have "h' = h2" "isl r" by (auto simp: Optimize_def)
      with u1 u2 show ?thesis
        by (auto simp: unchanged_on_def)
    next
      case (Inr history)
      with a2 have a2': "apart ?A h2 [q]" by simp
      obtain r3 h3 where
        f3: "or_default (onFinish opts) (\<lambda>s history h. (Inr s, h)) s history h2 = (r3, h3)"
        by (cases "or_default (onFinish opts) (\<lambda>s history h. (Inr s, h)) s history h2")
      note f = leaves_aloneD [OF fin a2' f3]
      from assms(1,3) dc l2 Inr f3 have h': "h' = h3"
        and r: "r = (case r3 of Inl e \<Rightarrow> Inl e | Inr s' \<Rightarrow> Inr (s', q))"
        by (auto simp: Optimize_def split: sum.splits)
      have u: "\<forall>a\<in>?A. lookup h' a = lookup h a"
        using u1 u2 f(1) h' by (simp add: unchanged_on_def)
      have "paramObj \<noteq> p \<and> paramObj \<notin> ?A \<and> reach h' paramObj \<inter> ?A = {}"
        if "r = Inr (s', paramObj)" for s' paramObj
      proof -
        from that r obtain s'' where r3: "r3 = Inr s''" and q: "paramObj = q"
          by (cases r3) auto
        from f(2) [OF r3] h' have "apart ?A h' [q]" by simp
        then have "reach h' q \<inter> ?A = {}" by (simp add: apart_def)
        moreover from fresh alloc have "q \<notin> ?A" by auto
        moreover from this pA have "q \<noteq> p" by auto
        ultimately show ?thesis using q by simp
      qed
      with u show ?thesis by blast
    qed
  qed
qed

lemma reach_root_allocated: "b \<in> reach h r \<Longrightarrow> r < length h"
  by (induction rule: reach.induct) simp_all

lemma reach_snoc_leaf:
  assumes "refs ob = []" and "b \<in> reach (h @ [ob]) r"
  shows "b \<in> reach h r \<or> b = length h"
  using assms(2)
proof (induction rule: reach.induct)
  case here
  then show ?case by (auto intro: reach.here simp: less_Suc_eq)
next
  case (step b c)
  from step.IH show ?case
  proof
    assume b: "b \<in> reach h r"
    then have "b < length h" by (rule reach_allocated)
    with step.hyps(2) have "c \<in> set (refs (h ! b))" by (simp add: nth_append)
    with b step.hyps(3) show ?thesis
      by (auto intro: reach.step simp: less_Suc_eq)
  next
    assume "b = length h"
    with step.hyps(2) assms(1) show ?thesis by simp
  qed
qed

lemma reach_update_leaf:
  assumes "refs ob = []" and "refs (h ! t) = []" and "b \<in> reach (h[t := ob]) r"
  shows "b \<in> reach h r"
  using assms(3)
proof (induction rule: reach.induct)
  case here
  then show ?case by (auto intro: reach.here)
next
  case (step b c)
  from step.hyps(2) assms(1,2) have "c \<in> set (refs (h ! b))"
    by (cases "b = t"; cases "t < length h") (auto simp: list_update_beyond)
  with step show ?case by (auto intro: reach.step)
qed

lemma fresh_gradient_leaves_alone:
  "leaves_alone A [q] (fresh_gradient q i) (\<lambda>(g, objective). [g])"
proof -
  have "unchanged_on A h (h @ [HObject []]) \<and> apart A (h @ [HObject []]) [q, length h]"
    if "apart A h [q]" for h :: "int heap"
  proof -
    from that have al: "\<forall>a\<in>A. a < length h" and q: "reach h q \<inter> A = {}"
      by (auto simp: apart_def)
    have "reach (h @ [HObject []]) r \<inter> A = {}" if "reach h r \<inter> A = {} \<or> r = length h" for r
    proof (rule ccontr)
      assume "reach (h @ [HObject []]) r \<inter> A \<noteq> {}"
      then obtain b where b: "b \<in> reach (h @ [HObject []]) r" and bA: "b \<in> A" by auto
      from b have "b \<in> reach h r \<or> b = length h" by (rule reach_snoc_leaf [rotated]) simp
      with bA al that show False
        by (auto dest: reach_allocated reach_root_allocated)
    qed
    with al q show ?thesis
      by (auto simp: apart_def unchanged_on_append)
  qed
  then show ?thesis
    by (simp add: leaves_alone_def fresh_gradient_def alloc_def)
qed

lemma no_effect_leaves_alone: "leaves_alone A roots (\<lambda>h. (Inr v, h)) (\<lambda>u. [])"
  by (simp add: leaves_alone_def unchanged_on_refl)

lemma update_tensor_leaves_alone:
  assumes "apart A h roots" and "t \<notin> A" and "lookup h t = Some (HTensor d)"
  shows "unchanged_on A h (h[t := HTensor d']) \<and> apart A (h[t := HTensor d']) roots"
proof -
  from assms(3) have t: "refs (h ! t) = []"
    by (auto simp: lookup_def split: if_splits)
  have sub: "reach (h[t := HTensor d']) r \<subseteq> reach h r" for r
  proof
    fix b
    assume "b \<in> reach (h[t := HTensor d']) r"
    with t show "b \<in> reach h r"
      by (intro reach_update_leaf [of "HTensor d'" h t b r]) simp_all
  qed
  have "h[t := HTensor d'] ! a = h ! a" if "a \<in> A" for a
  proof -
    from that assms(2) have "t \<noteq> a" by blast
    then show ?thesis by simp
  qed
  moreover have "reach (h[t := HTensor d']) r \<inter> A = {}" if "reach h r \<inter> A = {}" for r
    using that sub [of r] by blast
  ultimately show ?thesis
    using assms(1) by (simp add: apart_def unchanged_on_def lookup_def)
qed

lemma decrement_first_leaves_alone:
  "leaves_alone A [q, g] (decrement_first g q i) (\<lambda>u. [])"
proof -
  have "case decrement_first g q i h of
          (Inl e, h') \<Rightarrow> unchanged_on A h h'
        | (Inr r, h') \<Rightarrow> unchanged_on A h h' \<and> apart A h' ([q, g] @ [])"
    if ap: "apart A h [q, g]" for h
  proof (cases "\<exists>name lst props t ts d. lookup h q = Some (HObject ((name, lst) # props))
      \<and> lookup h lst = Some (HArray (t # ts)) \<and> lookup h t = Some (HTensor d)")
    case True
    then obtain name lst props t ts d where
      q: "lookup h q = Some (HObject ((name, lst) # props))"
      and lst: "lookup h lst = Some (HArray (t # ts))"
      and t: "lookup h t = Some (HTensor d)"
      by blast
    from q have "q \<in> reach h q" and "lst \<in> set (refs (h ! q))"
      by (auto simp: lookup_def intro: reach.here split: if_splits)
    with lst have l: "lst \<in> reach h q" and "t \<in> set (refs (h ! lst))"
      by (auto simp: lookup_def intro: reach.step split: if_splits)
    with t have "t \<in> reach h q"
      by (auto simp: lookup_def intro: reach.step split: if_splits)
    with ap have "t \<notin> A" by (auto simp: apart_def)
    from update_tensor_leaves_alone [OF ap this t] q lst t show ?thesis
      by (simp add: decrement_first_def)
  next
    case False
    then have "decrement_first g q i h = (Inr (), h)"
      by (auto simp: decrement_first_def split: option.splits obj.splits list.splits)
    with ap show ?thesis by (simp add: unchanged_on_refl)
  qed
  then show ?thesis by (simp add: leaves_alone_def)
qed

lemma in_place_leaves_alone: "collaborators_leave_alone A in_place two_steps"
  by (simp add: collaborators_leave_alone_def in_place_def two_steps_def or_default_def
      fresh_gradient_leaves_alone decrement_first_leaves_alone no_effect_leaves_alone)

lemma reach_one_param: "0 \<in> reach one_param 0" "1 \<in> reach one_param 0" "2 \<in> reach one_param 0"
proof -
  show 0: "0 \<in> reach one_param 0"
    by (rule reach.here) (simp add: one_param_def)
  from 0 show 1: "1 \<in> reach one_param 0"
    by (rule reach.step) (simp_all add: one_param_def)
  from 1 show "2 \<in> reach one_param 0"
    by (rule reach.step) (simp_all add: one_param_def)
qed

text \<open>
  The theorem for two steps on a parameter object with one tensor: the copy's tensor
  goes from 5 to 3, the caller's three objects stay.
\<close>

theorem Optimize_params_unchanged_witness:
  "params two_steps = Some 0
   \<and> collaborators_leave_alone (reach one_param 0) in_place two_steps
   \<and> Optimize in_place () two_steps one_param =
       (Inr ((), 5),
        [HObject [(''w'', 1)], HArray [2], HTensor 5,
         HTensor 3, HArray [3], HObject [(''w'', 4)], HObject [], HObject []])
   \<and> lookup (snd (Optimize in_place () two_steps one_param)) 0 = Some (HObject [(''w'', 1)])
   \<and> lookup (snd (Optimize in_place () two_steps one_param)) 1 = Some (HArray [2])
   \<and> lookup (snd (Optimize in_place () two_steps one_param)) 2 = Some (HTensor 5)
   \<and> 5 \<notin> reach one_param 0"
proof -
  have p: "params two_steps = Some 0"
    by (simp add: two_steps_def)
  have c: "collaborators_leave_alone (reach one_param 0) in_place two_steps"
    by (rule in_place_leaves_alone)
  have e: "Optimize in_place () two_steps one_param =
       (Inr ((), 5),
        [HObject [(''w'', 1)], HArray [2], HTensor 5,
         HTensor 3, HArray [3], HObject [(''w'', 4)], HObject [], HObject []])"
    by (simp add: Optimize_def two_steps_def one_param_def in_place_def deepCopy_def lookup_def
        alloc_def and_then_def or_default_def fresh_gradient_def decrement_first_def
        numeral_2_eq_2)
  note u = Optimize_params_unchanged [OF p c e]
  from u reach_one_param
  have "lookup (snd (Optimize in_place () two_steps one_param)) 0 = lookup one_param 0"
    and "lookup (snd (Optimize in_place () two_steps one_param)) 1 = lookup one_param 1"
    and "lookup (snd (Optimize in_place () two_steps one_param)) 2 = lookup one_param 2"
    and "5 \<notin> reach one_param 0"
    unfolding e by auto
  with p c e show ?thesis
    by (simp add: lookup_def one_param_def)
qed

end
